theory Spec2Isabelle
  imports Main "HOL-Library.AList" "HOL-Library.Multiset"
begin

section \<open>stdout2prom: lines on standard input turned into Prometheus metrics\<close>

text \<open>
  The program reads a configuration (a list of metrics, each with a regular expression,
  an optional value group name and a list of label group names), creates one Prometheus
  collector per metric, and then runs one loop over the lines of standard input: each
  line is matched against every metric, matching metrics are updated, and the line is
  echoed or swallowed.

  What belongs to libraries is kept outside the model and enters as a parameter or as a
  small model of the library's contract:
  \<^item> a compiled \<open>*regexp.Regexp\<close> is a record of the two methods the program calls,
    \<open>FindStringSubmatch\<close> (the empty list stands for the nil slice of "no match") and
    \<open>SubexpNames\<close>; \<open>regexp.MustCompile\<close> is a parameter \<open>compile\<close> that returns
    \<open>None\<close> where the library panics;
  \<^item> \<open>strconv.ParseFloat\<close> is a parameter that returns \<open>None\<close> where the library returns
    a non-nil error, and the type \<open>'v\<close> of gauge values stands for \<open>float64\<close>;
  \<^item> a Prometheus counter holds a natural number (the program only ever calls \<open>Inc\<close> and
    \<open>Add\<close> with a length on one), a gauge holds a \<open>'v\<close>, and a vector holds its declared
    label names and one series per tuple of label values;
  \<^item> the main loop runs over the list of the strings that \<open>scanner.Text()\<close> returns; how
    \<open>bufio.Scanner\<close> cuts the bytes of standard input into these is \<open>scan_lines\<close>.
  A Go \<open>string\<close> is a sequence of bytes and so is a HOL \<open>string\<close>; \<open>len\<close> is \<open>length\<close>.
  The \<open>*debug\<close> flag only adds log lines; the model is the program with the flag off.
  Reading the YAML file, CPU profiling, the HTTP endpoint that serves the registry and
  the wait after the end of input do not touch the state below and are left out.
\<close>

subsection \<open>Panics and error values\<close>

text \<open>
  A panic ends the process; it is the \<open>Inl\<close> of every result type below. An \<open>error\<close> is
  the second component of a Go result pair, \<open>None\<close> for \<open>nil\<close>.
\<close>

datatype panic =
    IndexOutOfRange
  | InconsistentLabels
  | TypeAssertion
  | RegexpCompile
  | RegisterFailed

datatype error = ParseFloatError | LabelNotFound

subsection \<open>Configuration and collectors\<close>

record regexp =
  FindStringSubmatch :: "string \<Rightarrow> string list"
  SubexpNames :: "string list"

text \<open>\<open>prometheus.Labels\<close> is \<open>map[string]string\<close>: an association list with distinct
  keys, written with \<open>AList.update\<close> and read with \<open>map_of\<close>; \<open>nil\<close> is the empty list.\<close>

type_synonym labels = "(string \<times> string) list"

datatype 'v collector =
    Counter nat
  | CounterVec "string list" "(string list \<times> nat) list"
  | Gauge 'v
  | GaugeVec "string list" "(string list \<times> 'v) list"

datatype shape = CounterShape | CounterVecShape | GaugeShape | GaugeVecShape

fun shape_of :: "'v collector \<Rightarrow> shape" where
  "shape_of (Counter n) = CounterShape"
| "shape_of (CounterVec names series) = CounterVecShape"
| "shape_of (Gauge v) = GaugeShape"
| "shape_of (GaugeVec names series) = GaugeVecShape"

text \<open>
  One element of \<open>Data.Metrics\<close>. The fields read from YAML form \<open>metric_conf\<close>; the
  three fields that the startup loop fills in for every index before the first line is
  read (\<open>Collector\<close>, \<open>Compiled\<close>, \<open>GroupName\<close>) extend it to \<open>metric\<close>.
\<close>

record metric_conf =
  Name :: string
  Description :: string
  Regex :: string
  Value :: string
  Labels :: "string list"

record 'v metric = metric_conf +
  Collector :: "'v collector"
  Compiled :: regexp
  GroupName :: "string list"

record 'm Data =
  Basename :: string
  EatMatches :: bool
  EatAll :: bool
  Listen :: string
  Path :: string
  Metrics :: "'m list"

text \<open>
  The mutable package-level variables: the four counters of the program itself, the
  variables \<open>labels\<close> and \<open>value\<close> that the loop assigns (\<open>value\<close> is a command name of
  Isabelle, hence the prefix), and the two output streams (what \<open>log.Println\<close> wrote,
  what \<open>fmt.Println\<close> wrote). The variable \<open>err\<close> of \<open>main\<close> is assigned by every call
  right before it is tested, so it is the error component of the call's result.
\<close>

record 'v state =
  totalLines :: nat
  bytesRead :: nat
  matchedLines :: nat
  badFloats :: nat
  var_labels :: labels
  var_value :: 'v
  log_output :: "string list"
  stdout :: string

definition initial_state :: "('v::zero) state" where
  "initial_state = \<lparr>totalLines = 0, bytesRead = 0, matchedLines = 0, badFloats = 0,
     var_labels = [], var_value = 0, log_output = [], stdout = []\<rparr>"

subsection \<open>The helpers \<open>indexOf\<close>, \<open>getValue\<close>, \<open>getLabels\<close>\<close>

fun indexOf_from :: "int \<Rightarrow> string \<Rightarrow> string list \<Rightarrow> int" where
  "indexOf_from k word [] = -1"
| "indexOf_from k word (v # data) = (if word = v then k else indexOf_from (k + 1) word data)"

definition indexOf :: "string \<Rightarrow> string list \<Rightarrow> int" where
  "indexOf word data = indexOf_from 0 word data"

text \<open>\<open>results[idx]\<close> panics when \<open>idx\<close> is negative or not below \<open>len(results)\<close>; the
  index expression is evaluated before \<open>ParseFloat\<close> is called.\<close>

definition getValue ::
  "(string \<Rightarrow> 'v option) \<Rightarrow> string \<Rightarrow> string list \<Rightarrow> string list
     \<Rightarrow> panic + ('v::zero \<times> error option)" where
  "getValue ParseFloat valueName groupNames results =
     (let idx = indexOf valueName groupNames in
      if idx < 0 \<or> int (length results) \<le> idx then Inl IndexOutOfRange
      else (case ParseFloat (results ! nat idx) of
              None \<Rightarrow> Inr (0, Some ParseFloatError)
            | Some val \<Rightarrow> Inr (val, None)))"

fun getLabels_loop ::
  "string list \<Rightarrow> string list \<Rightarrow> string list \<Rightarrow> labels \<Rightarrow> panic + (labels \<times> error option)" where
  "getLabels_loop [] groupNames results val = Inr (val, None)"
| "getLabels_loop (labelName # rest) groupNames results val =
     (let idx = indexOf labelName groupNames in
      if idx = -1 then Inr ([], Some LabelNotFound)
      else if idx < 0 \<or> int (length results) \<le> idx then Inl IndexOutOfRange
      else getLabels_loop rest groupNames results
             (AList.update labelName (results ! nat idx) val))"

definition getLabels ::
  "string list \<Rightarrow> string list \<Rightarrow> string list \<Rightarrow> panic + (labels \<times> error option)" where
  "getLabels labelNames groupNames results = getLabels_loop labelNames groupNames results []"

subsection \<open>The collector operations the loop calls\<close>

text \<open>
  \<open>With\<close> of a vector (client library): it panics unless the label map has as many
  entries as the vector has label names and holds every one of them; otherwise it
  selects the series of the label values, in the order of the declared names, creating
  it at zero when it is new.
\<close>

definition With :: "string list \<Rightarrow> labels \<Rightarrow> panic + string list" where
  "With names lbls =
     (if length lbls \<noteq> length names then Inl InconsistentLabels
      else if \<exists>n \<in> set names. map_of lbls n = None then Inl InconsistentLabels
      else Inr (map (\<lambda>n. the (map_of lbls n)) names))"

definition series_value :: "('z::zero) \<Rightarrow> (string list \<times> 'z) list \<Rightarrow> string list \<Rightarrow> 'z" where
  "series_value z series key = (case map_of series key of None \<Rightarrow> z | Some x \<Rightarrow> x)"

text \<open>
  Lines 316 to 348 of the loop body: the update is chosen by the same two tests as the
  collector was at startup, and reaches the collector through a type assertion. An
  assertion on a collector of another shape is \<open>TypeAssertion\<close> here; the collector is
  created by the same two tests on the same fields, so that branch is not reached from a
  started configuration, and no theorem below depends on its value.
\<close>

definition update_collector :: "('v::zero) metric \<Rightarrow> labels \<Rightarrow> 'v \<Rightarrow> panic + 'v collector" where
  "update_collector metric lbls val =
     (if Value metric = [] then
        (if length (Labels metric) > 0 then
           (case Collector metric of
              CounterVec names series \<Rightarrow>
                (case With names lbls of
                   Inl p \<Rightarrow> Inl p
                 | Inr key \<Rightarrow>
                     Inr (CounterVec names (AList.update key (series_value 0 series key + 1) series)))
            | _ \<Rightarrow> Inl TypeAssertion)
         else
           (case Collector metric of
              Counter n \<Rightarrow> Inr (Counter (n + 1))
            | _ \<Rightarrow> Inl TypeAssertion))
      else
        (if length (Labels metric) > 0 then
           (case Collector metric of
              GaugeVec names series \<Rightarrow>
                (case With names lbls of
                   Inl p \<Rightarrow> Inl p
                 | Inr key \<Rightarrow> Inr (GaugeVec names (AList.update key val series)))
            | _ \<Rightarrow> Inl TypeAssertion)
         else
           (case Collector metric of
              Gauge old \<Rightarrow> Inr (Gauge val)
            | _ \<Rightarrow> Inl TypeAssertion)))"

subsection \<open>The loop over the metrics, for one line\<close>

text \<open>
  The body of \<open>for _, metric := range cnf.Metrics\<close> (lines 257 to 351). The accumulator is
  the state and the local \<open>matchFound\<close>. The result holds the metric with its collector
  after the update. \<open>continue\<close> is the early \<open>Inr\<close>.
\<close>

definition process_metric ::
  "(string \<Rightarrow> 'v option) \<Rightarrow> string \<Rightarrow> ('v::zero) metric \<Rightarrow> 'v state \<times> bool
     \<Rightarrow> panic + ('v metric \<times> 'v state \<times> bool)" where
  "process_metric ParseFloat line metric acc =
     (let st = fst acc; matchFound = snd acc;
          result = FindStringSubmatch (Compiled metric) line in
      if length result \<noteq> 0 then
        (let st1 = st\<lparr>matchedLines := matchedLines st + 1\<rparr> in
         case (if Value metric \<noteq> []
               then (case getValue ParseFloat (Value metric) (GroupName metric) result of
                       Inl p \<Rightarrow> Inl p
                     | Inr (val, err) \<Rightarrow> Inr (st1\<lparr>var_value := val\<rparr>, err))
               else Inr (st1, None)) of
           Inl p \<Rightarrow> Inl p
         | Inr (st2, Some err) \<Rightarrow> Inr (metric, st2\<lparr>badFloats := badFloats st2 + 1\<rparr>, True)
         | Inr (st2, None) \<Rightarrow>
             (case (if length (Labels metric) > 0
                    then (case getLabels (Labels metric) (GroupName metric) result of
                            Inl p \<Rightarrow> Inl p
                          | Inr (lbls, err) \<Rightarrow>
                              Inr ((st2\<lparr>var_labels := lbls\<rparr>)
                                     \<lparr>log_output := log_output st2 @
                                        (if err \<noteq> None then [''problems finding labels''] else [])\<rparr>))
                    else Inr st2) of
                Inl p \<Rightarrow> Inl p
              | Inr st3 \<Rightarrow>
                  (case update_collector metric (var_labels st3) (var_value st3) of
                     Inl p \<Rightarrow> Inl p
                   | Inr c \<Rightarrow> Inr (metric\<lparr>Collector := c\<rparr>, st3, True))))
      else Inr (metric, st, matchFound))"

fun process_metrics ::
  "(string \<Rightarrow> 'v option) \<Rightarrow> string \<Rightarrow> ('v::zero) metric list \<Rightarrow> 'v state \<times> bool
     \<Rightarrow> panic + ('v metric list \<times> 'v state \<times> bool)" where
  "process_metrics ParseFloat line [] acc = Inr ([], acc)"
| "process_metrics ParseFloat line (metric # rest) acc =
     (case process_metric ParseFloat line metric acc of
        Inl p \<Rightarrow> Inl p
      | Inr (metric', acc') \<Rightarrow>
          (case process_metrics ParseFloat line rest acc' of
             Inl p \<Rightarrow> Inl p
           | Inr (rest', acc'') \<Rightarrow> Inr (metric' # rest', acc'')))"

subsection \<open>One line, and the loop over the lines\<close>

text \<open>Lines 253 and 254: the two counters every line moves.\<close>

definition count_line :: "string \<Rightarrow> 'v state \<Rightarrow> 'v state" where
  "count_line line st =
     st\<lparr>totalLines := totalLines st + 1, bytesRead := bytesRead st + length line\<rparr>"

text \<open>Lines 353 to 359: the two \<open>continue\<close>s and \<open>fmt.Println(line)\<close>.\<close>

definition pass_through :: "bool \<Rightarrow> bool \<Rightarrow> bool \<Rightarrow> string \<Rightarrow> 'v state \<Rightarrow> 'v state" where
  "pass_through eatAll eatMatches matchFound line st =
     (if eatAll then st
      else if matchFound \<and> eatMatches then st
      else st\<lparr>stdout := stdout st @ line @ [CHR 0x0A]\<rparr>)"

definition process_line ::
  "(string \<Rightarrow> 'v option) \<Rightarrow> ('v::zero) metric Data \<Rightarrow> string \<Rightarrow> 'v state
     \<Rightarrow> panic + ('v metric Data \<times> 'v state)" where
  "process_line ParseFloat cnf line st =
     (case process_metrics ParseFloat line (Metrics cnf) (count_line line st, False) of
        Inl p \<Rightarrow> Inl p
      | Inr (metrics', st', matchFound) \<Rightarrow>
          Inr (cnf\<lparr>Metrics := metrics'\<rparr>,
               pass_through (EatAll cnf) (EatMatches cnf) matchFound line st'))"

fun process_lines ::
  "(string \<Rightarrow> 'v option) \<Rightarrow> ('v::zero) metric Data \<Rightarrow> string list \<Rightarrow> 'v state
     \<Rightarrow> panic + ('v metric Data \<times> 'v state)" where
  "process_lines ParseFloat cnf [] st = Inr (cnf, st)"
| "process_lines ParseFloat cnf (line # rest) st =
     (case process_line ParseFloat cnf line st of
        Inl p \<Rightarrow> Inl p
      | Inr (cnf', st') \<Rightarrow> process_lines ParseFloat cnf' rest st')"

subsection \<open>The scanner that cuts standard input into lines\<close>

text \<open>
  \<open>bufio.NewScanner(os.Stdin)\<close> with its default split function \<open>ScanLines\<close> (library):
  a line ends at a newline byte; the token handed to the loop is the line without the
  newline and without one carriage return directly before it; a last line without
  newline is a token too when it is not empty, again without one trailing carriage
  return. The scanner gives up (and the loop ends) when \<open>MaxScanTokenSize\<close> bytes hold
  no newline. \<open>scan_lines cur input\<close> returns, for every token, the raw bytes consumed
  for it and the token; \<open>cur\<close> is the part of the current line already read.
\<close>

definition MaxScanTokenSize :: nat where
  "MaxScanTokenSize = 65536"

definition dropCR :: "string \<Rightarrow> string" where
  "dropCR data = (if data \<noteq> [] \<and> last data = CHR 0x0D then butlast data else data)"

fun scan_lines :: "string \<Rightarrow> string \<Rightarrow> (string \<times> string) list" where
  "scan_lines cur [] = (if cur = [] then [] else [(cur, dropCR cur)])"
| "scan_lines cur (c # rest) =
     (if c = CHR 0x0A then (cur @ [c], dropCR cur) # scan_lines [] rest
      else if MaxScanTokenSize \<le> length cur + 1 then []
      else scan_lines (cur @ [c]) rest)"

text \<open>What \<open>scanner.Text()\<close> returns over the whole of standard input.\<close>

definition scanner_lines :: "string \<Rightarrow> string list" where
  "scanner_lines input = map snd (scan_lines [] input)"

subsection \<open>Startup: one collector per metric, then the program's own counters\<close>

text \<open>
  The registry is the list of what \<open>prometheus.MustRegister\<close> accepted, each entry the
  fully qualified name and which collector it is. \<open>MustRegister\<close> panics on a name that is
  already registered; whatever else the library checks of a descriptor (the syntax of
  the name and of the label names) is the parameter \<open>valid\<close>.
\<close>

datatype collector_ref = UserMetric nat | TotalLines | BytesRead | MatchedLines | BadFloats

type_synonym registry = "(string \<times> collector_ref) list"

fun self_name :: "collector_ref \<Rightarrow> string" where
  "self_name TotalLines = ''stdout2prom_lines_parsed_total''"
| "self_name BytesRead = ''stdout2prom_bytes_read_total''"
| "self_name MatchedLines = ''stdout2prom_matched_lines_total''"
| "self_name BadFloats = ''stdout2prom_bad_floats_total''"
| "self_name (UserMetric i) = []"

definition MustRegister ::
  "(string \<Rightarrow> string list \<Rightarrow> bool) \<Rightarrow> string \<Rightarrow> string list \<Rightarrow> collector_ref \<Rightarrow> registry
     \<Rightarrow> panic + registry" where
  "MustRegister valid name lbls c reg =
     (if \<not> valid name lbls \<or> name \<in> set (map fst reg) then Inl RegisterFailed
      else Inr (reg @ [(name, c)]))"

text \<open>Lines 179 to 228: the collector is chosen by \<open>metric.Value != ""\<close> and
  \<open>len(metric.Labels) > 0\<close>; a new counter or gauge is at zero, a new vector has no series.\<close>

definition new_collector :: "metric_conf \<Rightarrow> ('v::zero) collector" where
  "new_collector metric =
     (if Value metric \<noteq> [] then
        (if length (Labels metric) > 0 then GaugeVec (Labels metric) [] else Gauge 0)
      else
        (if length (Labels metric) > 0 then CounterVec (Labels metric) [] else Counter 0))"

fun startup_metrics ::
  "(string \<Rightarrow> regexp option) \<Rightarrow> (string \<Rightarrow> string list \<Rightarrow> bool) \<Rightarrow> string \<Rightarrow> nat
     \<Rightarrow> metric_conf list \<Rightarrow> registry \<Rightarrow> panic + (('v::zero) metric list \<times> registry)" where
  "startup_metrics compile valid basename index [] reg = Inr ([], reg)"
| "startup_metrics compile valid basename index (metric # rest) reg =
     (let metricName = basename @ ''_'' @ Name metric in
      case compile (Regex metric) of
        None \<Rightarrow> Inl RegexpCompile
      | Some re \<Rightarrow>
          (case MustRegister valid metricName (Labels metric) (UserMetric index) reg of
             Inl p \<Rightarrow> Inl p
           | Inr reg' \<Rightarrow>
               (case startup_metrics compile valid basename (index + 1) rest reg' of
                  Inl p \<Rightarrow> Inl p
                | Inr (rest', reg'') \<Rightarrow>
                    Inr (\<lparr>Name = Name metric, Description = Description metric,
                          Regex = Regex metric, Value = Value metric, Labels = Labels metric,
                          Collector = new_collector metric, Compiled = re,
                          GroupName = SubexpNames re\<rparr> # rest', reg''))))"

definition startup ::
  "(string \<Rightarrow> regexp option) \<Rightarrow> (string \<Rightarrow> string list \<Rightarrow> bool) \<Rightarrow> metric_conf Data
     \<Rightarrow> panic + (('v::zero) metric Data \<times> registry)" where
  "startup compile valid cnf =
     (case startup_metrics compile valid (Basename cnf) 0 (Metrics cnf) [] of
        Inl p \<Rightarrow> Inl p
      | Inr (metrics, reg) \<Rightarrow>
          (case MustRegister valid (self_name TotalLines) [] TotalLines reg of
             Inl p \<Rightarrow> Inl p
           | Inr reg1 \<Rightarrow>
               (case MustRegister valid (self_name BytesRead) [] BytesRead reg1 of
                  Inl p \<Rightarrow> Inl p
                | Inr reg2 \<Rightarrow>
                    (case MustRegister valid (self_name MatchedLines) [] MatchedLines reg2 of
                       Inl p \<Rightarrow> Inl p
                     | Inr reg3 \<Rightarrow>
                         Inr (\<lparr>Basename = Basename cnf, EatMatches = EatMatches cnf,
                               EatAll = EatAll cnf, Listen = Listen cnf, Path = Path cnf,
                               Metrics = metrics\<rparr>, reg3)))))"

subsection \<open>Sample library instances for the concrete runs\<close>

text \<open>
  Two regular expressions, with the answers Go's \<open>regexp\<close> gives for them: \<open>a\<close> matches a
  line that holds the byte \<open>a\<close> and has no group besides the whole match;
  \<open>(?P<v>.*)\<close> matches every line, and both the whole match and the group \<open>v\<close> are
  the line up to its first newline byte. The sample \<open>ParseFloat\<close> reads a non-empty
  string of decimal digits as that number and rejects every other string; it stands
  for \<open>strconv.ParseFloat\<close> on the strings used below.
\<close>

definition sample_compile :: "string \<Rightarrow> regexp option" where
  "sample_compile src =
     (if src = ''a'' then
        Some \<lparr>FindStringSubmatch = (\<lambda>line. if CHR ''a'' \<in> set line then [''a''] else []),
              SubexpNames = [[]]\<rparr>
      else if src = ''(?P<v>.*)'' then
        Some \<lparr>FindStringSubmatch =
                (\<lambda>line. [takeWhile (\<lambda>c. c \<noteq> CHR 0x0A) line,
                         takeWhile (\<lambda>c. c \<noteq> CHR 0x0A) line]),
              SubexpNames = [[], ''v'']\<rparr>
      else None)"

definition is_digit :: "char \<Rightarrow> bool" where
  "is_digit c = (48 \<le> (of_char c :: nat) \<and> (of_char c :: nat) \<le> 57)"

definition digit_value :: "char \<Rightarrow> int" where
  "digit_value c = int (of_char c) - 48"

definition sample_ParseFloat :: "string \<Rightarrow> int option" where
  "sample_ParseFloat s =
     (if s \<noteq> [] \<and> list_all is_digit s
      then Some (foldl (\<lambda>acc c. 10 * acc + digit_value c) 0 s)
      else None)"

definition sample_metric :: "string \<Rightarrow> string \<Rightarrow> string \<Rightarrow> string list \<Rightarrow> metric_conf" where
  "sample_metric name regex val lbls =
     \<lparr>Name = name, Description = [], Regex = regex, Value = val, Labels = lbls\<rparr>"

definition sample_conf :: "metric_conf list \<Rightarrow> metric_conf Data" where
  "sample_conf ms =
     \<lparr>Basename = ''myMetrics'', EatMatches = False, EatAll = False, Listen = '':9000'',
      Path = ''/metrics'', Metrics = ms\<rparr>"

subsection \<open>The whole run\<close>

text \<open>\<open>main\<close> after the configuration is read: startup, then the loop over the lines,
  from the counters at zero.\<close>

definition main ::
  "(string \<Rightarrow> regexp option) \<Rightarrow> (string \<Rightarrow> string list \<Rightarrow> bool) \<Rightarrow> (string \<Rightarrow> 'v option)
     \<Rightarrow> metric_conf Data \<Rightarrow> string list \<Rightarrow> panic + (('v::zero) metric Data \<times> 'v state \<times> registry)" where
  "main compile valid ParseFloat cnf lines =
     (case startup compile valid cnf of
        Inl p \<Rightarrow> Inl p
      | Inr (cnf', reg) \<Rightarrow>
          (case process_lines ParseFloat cnf' lines initial_state of
             Inl p \<Rightarrow> Inl p
           | Inr (cnf'', st) \<Rightarrow> Inr (cnf'', st, reg)))"

definition any_name :: "string \<Rightarrow> string list \<Rightarrow> bool" where
  "any_name name lbls = True"

subsection \<open>Notions the statements use\<close>

text \<open>A metric matches a line when its pattern finds a match: the test \<open>len(result) != 0\<close>
  of the loop body.\<close>

definition matches :: "'v metric \<Rightarrow> string \<Rightarrow> bool" where
  "matches metric line = (length (FindStringSubmatch (Compiled metric) line) \<noteq> 0)"

definition any_match :: "'v metric list \<Rightarrow> string \<Rightarrow> bool" where
  "any_match metrics line = list_ex (\<lambda>metric. matches metric line) metrics"

text \<open>The pass-through table in the specification's words: with \<open>eatAll\<close> a line is never
  forwarded; without it, a matched line is not forwarded under \<open>eatMatches\<close>; every other
  combination forwards.\<close>

fun spec_forwarded :: "bool \<Rightarrow> bool \<Rightarrow> bool \<Rightarrow> bool" where
  "spec_forwarded True eatMatches matched = False"
| "spec_forwarded False True True = False"
| "spec_forwarded False eatMatches matched = True"

text \<open>The classification in the specification's words, from "a value group is declared"
  and "the label group set is not empty".\<close>

fun spec_shape :: "bool \<Rightarrow> bool \<Rightarrow> shape" where
  "spec_shape True True = GaugeVecShape"
| "spec_shape True False = GaugeShape"
| "spec_shape False True = CounterVecShape"
| "spec_shape False False = CounterShape"

text \<open>What startup establishes for a metric and the loop keeps: the collector has the
  shape of the two tests, and a vector has the metric's label names.\<close>

definition started_ok :: "'v metric \<Rightarrow> bool" where
  "started_ok metric =
     (case Collector metric of
        Counter n \<Rightarrow> Value metric = [] \<and> Labels metric = []
      | CounterVec names series \<Rightarrow> Value metric = [] \<and> Labels metric \<noteq> [] \<and> names = Labels metric
      | Gauge v \<Rightarrow> Value metric \<noteq> [] \<and> Labels metric = []
      | GaugeVec names series \<Rightarrow> Value metric \<noteq> [] \<and> Labels metric \<noteq> [] \<and> names = Labels metric)"

text \<open>What the loop may change of a metric: its collector, within its shape.\<close>

definition keeps_spec :: "'v metric \<Rightarrow> 'v metric \<Rightarrow> bool" where
  "keeps_spec metric metric' =
     (Name metric' = Name metric \<and> Value metric' = Value metric
      \<and> Labels metric' = Labels metric \<and> Compiled metric' = Compiled metric
      \<and> GroupName metric' = GroupName metric
      \<and> shape_of (Collector metric') = shape_of (Collector metric)
      \<and> started_ok metric' = started_ok metric)"

text \<open>A match whose declared value group yields an error from \<open>getValue\<close>.\<close>

definition value_fails :: "(string \<Rightarrow> 'v option) \<Rightarrow> string \<Rightarrow> ('v::zero) metric \<Rightarrow> bool" where
  "value_fails ParseFloat line metric =
     (matches metric line \<and> Value metric \<noteq> [] \<and>
      (case getValue ParseFloat (Value metric) (GroupName metric)
              (FindStringSubmatch (Compiled metric) line) of
         Inl p \<Rightarrow> False
       | Inr (val, err) \<Rightarrow> err \<noteq> None))"

text \<open>The loop body run on one metric by itself, from the counters at zero: the metric
  it leaves, or the panic.\<close>

definition step_metric ::
  "(string \<Rightarrow> 'v option) \<Rightarrow> string \<Rightarrow> ('v::zero) metric \<Rightarrow> panic + 'v metric" where
  "step_metric ParseFloat line metric =
     map_sum id fst (process_metric ParseFloat line metric (initial_state, False))"

text \<open>What a scrape reads from a counter, or from the series of a counter vector for a
  tuple of label values (a series not yet created reads zero); and the tuple of label
  values a line selects: the submatches of the metric's label groups, in the order of the
  label names.\<close>

fun counter_reading :: "'v collector \<Rightarrow> string list \<Rightarrow> nat" where
  "counter_reading (Counter n) key = n"
| "counter_reading (CounterVec names series) key = series_value 0 series key"
| "counter_reading (Gauge v) key = 0"
| "counter_reading (GaugeVec names series) key = 0"

definition label_key :: "'v metric \<Rightarrow> string \<Rightarrow> string list" where
  "label_key metric line =
     map (\<lambda>name. FindStringSubmatch (Compiled metric) line ! nat (indexOf name (GroupName metric)))
       (Labels metric)"



text \<open>The metrics as the startup loop leaves them, for the sample library instances.\<close>

definition sample_started :: "metric_conf list \<Rightarrow> int metric Data" where
  "sample_started ms =
     \<lparr>Basename = ''myMetrics'', EatMatches = False, EatAll = False, Listen = '':9000'',
      Path = ''/metrics'',
      Metrics = (case startup_metrics sample_compile any_name ''myMetrics'' 0 ms [] of
                   Inl p \<Rightarrow> []
                 | Inr (metrics, reg) \<Rightarrow> metrics)\<rparr>"

section \<open>Evaluation\<close>

lemmas run_defs =
  main_def startup_def MustRegister_def any_name_def sample_compile_def sample_conf_def
  sample_metric_def new_collector_def process_line_def process_metric_def count_line_def
  pass_through_def initial_state_def getValue_def getLabels_def indexOf_def
  update_collector_def With_def series_value_def sample_ParseFloat_def is_digit_def
  digit_value_def Let_def

section \<open>What one pass over the metrics does to the state\<close>

lemma process_metric_no_match:
  "\<not> matches m line \<Longrightarrow> process_metric pf line m acc = Inr (m, fst acc, snd acc)"
  by (simp add: process_metric_def matches_def Let_def)

lemma process_metric_Inr:
  assumes "process_metric pf line m (st, mf) = Inr (m', st', mf')"
  shows "totalLines st' = totalLines st \<and> bytesRead st' = bytesRead st \<and> stdout st' = stdout st
       \<and> matchedLines st' = matchedLines st + (if matches m line then 1 else 0)
       \<and> mf' = (mf \<or> matches m line) \<and> badFloats st \<le> badFloats st'
       \<and> badFloats st' \<le> badFloats st + 1
       \<and> m' = m\<lparr>Collector := Collector m'\<rparr>"
  using assms
  by (auto simp: process_metric_def matches_def Let_def
      split: if_splits sum.splits prod.splits option.splits)

lemma process_metrics_Inr:
  "process_metrics pf line ms (st, mf) = Inr (ms', st', mf') \<Longrightarrow>
     totalLines st' = totalLines st \<and> bytesRead st' = bytesRead st \<and> stdout st' = stdout st
     \<and> mf' = (mf \<or> any_match ms line) \<and> badFloats st \<le> badFloats st'
     \<and> matchedLines st' = matchedLines st + length (filter (\<lambda>m. matches m line) ms)
     \<and> length ms' = length ms"
proof (induction ms arbitrary: st mf ms' st' mf')
  case Nil
  then show ?case by (simp add: any_match_def)
next
  case (Cons m ms)
  from Cons.prems obtain m1 st1 mf1 rest' where
    s1: "process_metric pf line m (st, mf) = Inr (m1, st1, mf1)" and
    s2: "process_metrics pf line ms (st1, mf1) = Inr (rest', st', mf')" and
    s3: "ms' = m1 # rest'"
    by (auto split: sum.splits prod.splits)
  note h1 = process_metric_Inr[OF s1]
  note h2 = Cons.IH[OF s2]
  show ?case using h1 h2 s3 by (auto simp: any_match_def)
qed

section \<open>What one line does to the state\<close>

lemma spec_forwarded_eq:
  "spec_forwarded eatAll eatMatches matched = (\<not> eatAll \<and> \<not> (matched \<and> eatMatches))"
  by (cases eatAll; cases eatMatches; cases matched) simp_all

lemma process_line_Inr:
  assumes "process_line ParseFloat cnf line st = Inr (cnf', st')"
  shows "\<exists>ms' st1 mf. process_metrics ParseFloat line (Metrics cnf) (count_line line st, False) = Inr (ms', st1, mf)
    \<and> cnf' = cnf\<lparr>Metrics := ms'\<rparr>
    \<and> st' = pass_through (EatAll cnf) (EatMatches cnf) mf line st1"
proof (cases "process_metrics ParseFloat line (Metrics cnf) (count_line line st, False)")
  case (Inl p)
  with assms show ?thesis by (simp add: process_line_def)
next
  case (Inr r)
  obtain ms' st1 mf where r: "r = (ms', st1, mf)" by (cases r) auto
  with Inr assms show ?thesis by (simp add: process_line_def)
qed

lemma process_line_counts:
  assumes "process_line pf cnf line st = Inr (cnf', st')"
  shows "totalLines st' = totalLines st + 1 \<and> bytesRead st' = bytesRead st + length line"
proof -
  from process_line_Inr[OF assms] obtain ms' st1 mf where
    loop: "process_metrics pf line (Metrics cnf) (count_line line st, False) = Inr (ms', st1, mf)"
    and st': "st' = pass_through (EatAll cnf) (EatMatches cnf) mf line st1"
    by blast
  from process_metrics_Inr[OF loop] show ?thesis
    by (simp add: st' pass_through_def count_line_def)
qed

lemma process_lines_Cons_Inr:
  assumes "process_lines pf cnf (line # lines) st = Inr (cnf', st')"
  shows "\<exists>cnf1 st1. process_line pf cnf line st = Inr (cnf1, st1)
           \<and> process_lines pf cnf1 lines st1 = Inr (cnf', st')"
proof (cases "process_line pf cnf line st")
  case (Inl p)
  with assms show ?thesis by simp
next
  case (Inr r)
  obtain cnf1 st1 where "r = (cnf1, st1)" by (cases r) auto
  with Inr assms show ?thesis by simp
qed

lemma process_lines_counts:
  "process_lines pf cnf lines st = Inr (cnf', st') \<Longrightarrow>
     totalLines st' = totalLines st + length lines
     \<and> bytesRead st' = bytesRead st + sum_list (map length lines)"
proof (induction lines arbitrary: cnf st)
  case Nil
  then show ?case by simp
next
  case (Cons line lines)
  from process_lines_Cons_Inr[OF Cons.prems] obtain cnf1 st1 where
    one: "process_line pf cnf line st = Inr (cnf1, st1)" and
    more: "process_lines pf cnf1 lines st1 = Inr (cnf', st')"
    by blast
  from process_line_counts[OF one] Cons.IH[OF more] show ?case by simp
qed

section \<open>The matched-lines counter\<close>

text \<open>
  Claim C1: for every line the matched-lines counter goes up by one when at least one
  metric matches the line and by nothing otherwise, however many metrics match.

  The counter's help text is "Total lines that matched one of the regexes", but
  \<open>matchedLines.Inc()\<close> stands inside the loop over the metrics, next to the assignment
  of the per-line flag \<open>matchFound\<close>. With two counters \<open>x\<close> and \<open>y\<close> that both have the
  pattern \<open>a\<close>, the single line \<open>a\<close> leaves the lines counter at 1 and the matched-lines
  counter at 2.
\<close>

theorem C1_matched_lines_counts_every_match:
  "(case main sample_compile any_name sample_ParseFloat
           (sample_conf [sample_metric ''x'' ''a'' [] [], sample_metric ''y'' ''a'' [] []])
           [''a''] of
      Inl p \<Rightarrow> False
    | Inr (cnf, st, reg) \<Rightarrow> totalLines st = 1 \<and> matchedLines st = 2)"
  by (simp add: run_defs)

section \<open>A value group that the pattern does not have\<close>

text \<open>
  Claim C2: when a metric declares a value group name that is not among the pattern's
  group names, a matching line skips the update of that metric, counts one value
  extraction failure, and the process goes on.

  \<open>getLabels\<close> tests \<open>idx == -1\<close> and returns an error; \<open>getValue\<close> has no such test and
  evaluates \<open>results[idx]\<close> with the \<open>-1\<close> that \<open>indexOf\<close> returned. With one metric of
  pattern \<open>a\<close> and value group \<open>foo\<close>, the line \<open>a\<close> ends the run in the index panic.
\<close>

theorem C2_missing_value_group_panics:
  "main sample_compile any_name sample_ParseFloat
     (sample_conf [sample_metric ''x'' ''a'' ''foo'' []]) [''a''] = Inl IndexOutOfRange"
  by (simp add: run_defs)

section \<open>A label group that the pattern does not have\<close>

text \<open>
  Claim C3: when a matching metric declares a label name that is not among the pattern's
  group names, the collector is not updated for that line, a diagnostic is written, and
  the process does not crash.

  After \<open>getLabels\<close> has returned its error the loop body writes the diagnostic and then
  falls through to the update (the value path above it has a \<open>continue\<close>, this one has
  none), so the vector is asked for the series of the nil label map. With one metric of
  pattern \<open>a\<close> and label \<open>foo\<close>, the line \<open>a\<close> ends the run in the panic of \<open>With\<close>.
\<close>

theorem C3_missing_label_group_panics:
  "main sample_compile any_name sample_ParseFloat
     (sample_conf [sample_metric ''x'' ''a'' [] [''foo'']]) [''a''] = Inl InconsistentLabels"
  by (simp add: run_defs)

section \<open>What startup registers\<close>

text \<open>
  Claim C7: the four counters of the program itself (lines, bytes, matched lines, value
  extraction failures) are all registered at startup, under fixed names.

  \<open>main\<close> calls \<open>MustRegister\<close> for \<open>totalLines\<close>, \<open>bytesRead\<close> and \<open>matchedLines\<close>;
  \<open>badFloats\<close> is declared beside them and incremented by the loop, but never
  registered. With no metric configured, the registry after startup holds exactly the
  three.
\<close>

theorem C7_badFloats_never_registered:
  "(case main sample_compile any_name sample_ParseFloat (sample_conf []) [] of
      Inl p \<Rightarrow> False
    | Inr (cnf, st, reg) \<Rightarrow>
        reg = [(''stdout2prom_lines_parsed_total'', TotalLines),
               (''stdout2prom_bytes_read_total'', BytesRead),
               (''stdout2prom_matched_lines_total'', MatchedLines)]
        \<and> BadFloats \<notin> set (map snd reg))"
  by (simp add: run_defs)

section \<open>A value that does not parse\<close>

lemma matchFound_stays:
  "process_metrics pf line ms (st, True) = Inr (ms', st', mf') \<Longrightarrow> mf'"
  by (drule process_metrics_Inr) simp

text \<open>
  Claim C4: when a metric with a declared value group matches a line and the text of
  that group does not parse as a number, the value extraction failure counter goes up
  by one, the metric's collector stays as it was (a gauge keeps its value), the loop
  goes on with the next metric, and the line still counts as matched.

  The hypotheses say that the value group is found at position \<open>k\<close> of the group names
  and that position exists in the match. The first conjunct is the step on the metric
  itself, the second the loop continuing on the metrics after it, the third the flag and
  the metric at the end of the loop.
\<close>

theorem C4_parse_failure_skips_update:
  assumes "matches m line"
      and "Value m \<noteq> []"
      and "indexOf (Value m) (GroupName m) = int k"
      and "k < length (FindStringSubmatch (Compiled m) line)"
      and "ParseFloat (FindStringSubmatch (Compiled m) line ! k) = None"
  shows "process_metric ParseFloat line m (st, mf) =
           Inr (m, st\<lparr>matchedLines := matchedLines st + 1, var_value := 0,
                      badFloats := badFloats st + 1\<rparr>, True)
       \<and> process_metrics ParseFloat line (m # rest) (st, mf) =
           (case process_metrics ParseFloat line rest
                   (st\<lparr>matchedLines := matchedLines st + 1, var_value := 0,
                       badFloats := badFloats st + 1\<rparr>, True) of
              Inl p \<Rightarrow> Inl p
            | Inr (rest', acc) \<Rightarrow> Inr (m # rest', acc))
       \<and> (\<forall>ms' st' mf'. process_metrics ParseFloat line (m # rest) (st, mf) = Inr (ms', st', mf')
             \<longrightarrow> mf' \<and> hd ms' = m)"
proof -
  let ?st = "st\<lparr>matchedLines := matchedLines st + 1, var_value := 0,
                 badFloats := badFloats st + 1\<rparr>"
  have gv: "getValue ParseFloat (Value m) (GroupName m) (FindStringSubmatch (Compiled m) line)
              = Inr (0, Some ParseFloatError)"
    using assms(3,4,5) by (simp add: getValue_def)
  have one: "process_metric ParseFloat line m (st, mf) = Inr (m, ?st, True)"
    using assms(1,2) gv by (simp add: process_metric_def matches_def Let_def)
  have loop: "process_metrics ParseFloat line (m # rest) (st, mf) =
           (case process_metrics ParseFloat line rest (?st, True) of
              Inl p \<Rightarrow> Inl p
            | Inr (rest', acc) \<Rightarrow> Inr (m # rest', acc))"
    by (simp add: one)
  have fin: "\<forall>ms' st' mf'. process_metrics ParseFloat line (m # rest) (st, mf) = Inr (ms', st', mf')
             \<longrightarrow> mf' \<and> hd ms' = m"
    unfolding loop by (auto split: sum.splits dest: matchFound_stays)
  from one loop fin show ?thesis by blast
qed

theorem C4_parse_failure_witness:
  "(let m = hd (Metrics (sample_started [sample_metric ''x'' ''(?P<v>.*)'' ''v'' []]))
             \<lparr>Collector := Gauge 15\<rparr> in
    matches m ''abc'' \<and> Value m \<noteq> [] \<and> indexOf (Value m) (GroupName m) = 1
    \<and> sample_ParseFloat (FindStringSubmatch (Compiled m) ''abc'' ! 1) = None
    \<and> process_metric sample_ParseFloat ''abc'' m (initial_state, False) =
        Inr (m, initial_state\<lparr>matchedLines := 1, badFloats := 1\<rparr>, True)
    \<and> Collector m = Gauge 15)"
proof -
  define m where "m = hd (Metrics (sample_started [sample_metric ''x'' ''(?P<v>.*)'' ''v'' []]))
             \<lparr>Collector := Gauge 15\<rparr>"
  have h1: "matches m ''abc''" by (simp add: m_def sample_started_def matches_def run_defs)
  have h2: "Value m \<noteq> []" by (simp add: m_def sample_started_def run_defs)
  have h3: "indexOf (Value m) (GroupName m) = int 1"
    by (simp add: m_def sample_started_def run_defs)
  have h4: "1 < length (FindStringSubmatch (Compiled m) ''abc'')"
    by (simp add: m_def sample_started_def run_defs)
  have h5: "sample_ParseFloat (FindStringSubmatch (Compiled m) ''abc'' ! 1) = None"
    by (simp add: m_def sample_started_def run_defs)
  have h6: "Collector m = Gauge 15" by (simp add: m_def)
  from C4_parse_failure_skips_update[where ParseFloat = sample_ParseFloat and m = m
      and line = "''abc''" and k = 1 and st = initial_state and mf = False and rest = "[]",
      OF h1 h2 h3 h4 h5]
  have "process_metric sample_ParseFloat ''abc'' m (initial_state, False) =
        Inr (m, initial_state\<lparr>matchedLines := 1, badFloats := 1\<rparr>, True)"
    by (simp add: initial_state_def)
  with h1 h2 h3 h5 h6 have "matches m ''abc'' \<and> Value m \<noteq> [] \<and> indexOf (Value m) (GroupName m) = 1
    \<and> sample_ParseFloat (FindStringSubmatch (Compiled m) ''abc'' ! 1) = None
    \<and> process_metric sample_ParseFloat ''abc'' m (initial_state, False) =
        Inr (m, initial_state\<lparr>matchedLines := 1, badFloats := 1\<rparr>, True)
    \<and> Collector m = Gauge 15" by simp
  then show ?thesis unfolding m_def Let_def .
qed

section \<open>Pass-through\<close>

text \<open>
  Claim C5: whether a line is forwarded is a function of \<open>eatAll\<close>, \<open>eatMatches\<close> and
  whether the line matched, with no memory of earlier lines: never under \<open>eatAll\<close>; not
  for a matched line under \<open>eatMatches\<close>; in every other case the line is written as it
  is, followed by one newline byte.

  For every line whose processing completes, what is written to standard output is what
  was there before followed by the line and a newline, or by nothing, as the
  specification's table \<open>spec_forwarded\<close> says for the two flags and for whether some
  metric matches this line; the two flags are not changed.
\<close>

theorem C5_pass_through_decision:
  assumes "process_line ParseFloat cnf line st = Inr (cnf', st')"
  shows "stdout st' = stdout st @
           (if spec_forwarded (EatAll cnf) (EatMatches cnf) (any_match (Metrics cnf) line)
            then line @ [CHR 0x0A] else [])
       \<and> EatAll cnf' = EatAll cnf \<and> EatMatches cnf' = EatMatches cnf"
proof -
  from process_line_Inr[OF assms] obtain ms' st1 mf where
    loop: "process_metrics ParseFloat line (Metrics cnf) (count_line line st, False) = Inr (ms', st1, mf)"
    and cnf': "cnf' = cnf\<lparr>Metrics := ms'\<rparr>"
    and st': "st' = pass_through (EatAll cnf) (EatMatches cnf) mf line st1"
    by blast
  from process_metrics_Inr[OF loop]
  have mf: "mf = any_match (Metrics cnf) line" and out: "stdout st1 = stdout st"
    by (simp_all add: count_line_def)
  show ?thesis
    by (simp add: cnf' st' pass_through_def spec_forwarded_eq mf out)
qed

theorem C5_pass_through_witness:
  "\<exists>cnf' st'. process_line sample_ParseFloat
       ((sample_started [sample_metric ''x'' ''a'' [] []])\<lparr>EatMatches := True\<rparr>)
       ''b'' (initial_state\<lparr>stdout := ''a'' @ [CHR 0x0A]\<rparr>) = Inr (cnf', st')
     \<and> stdout st' = ''a'' @ [CHR 0x0A] @ ''b'' @ [CHR 0x0A]"
proof -
  let ?cnf = "(sample_started [sample_metric ''x'' ''a'' [] []])\<lparr>EatMatches := True\<rparr>"
  obtain cnf' st' where h: "process_line sample_ParseFloat ?cnf
       ''b'' (initial_state\<lparr>stdout := ''a'' @ [CHR 0x0A]\<rparr>) = Inr (cnf', st')"
    by (simp add: sample_started_def run_defs)
  have flags: "\<not> EatAll ?cnf" "EatMatches ?cnf" "\<not> any_match (Metrics ?cnf) ''b''"
    by (simp_all add: sample_started_def run_defs any_match_def matches_def)
  have out: "stdout (initial_state\<lparr>stdout := ''a'' @ [CHR 0x0A]\<rparr> :: int state) = ''a'' @ [CHR 0x0A]"
    by simp
  from C5_pass_through_decision[OF h] have "stdout st' = ''a'' @ [CHR 0x0A] @ ''b'' @ [CHR 0x0A]"
    unfolding out using flags by simp
  with h show ?thesis by blast
qed

section \<open>What the loop keeps of a metric\<close>

lemma update_collector_keeps:
  "update_collector m lbls v = Inr c \<Longrightarrow> keeps_spec m (m\<lparr>Collector := c\<rparr>)"
  by (auto simp: update_collector_def keeps_spec_def started_ok_def
      split: if_splits collector.splits sum.splits)

lemma keeps_spec_refl: "keeps_spec m m"
  by (simp add: keeps_spec_def)

lemma keeps_spec_trans: "keeps_spec a b \<Longrightarrow> keeps_spec b c \<Longrightarrow> keeps_spec a c"
  by (simp add: keeps_spec_def)

lemma process_metric_collector:
  assumes "process_metric pf line m acc = Inr (m', acc')"
  shows "Name m' = Name m \<and> Value m' = Value m \<and> Labels m' = Labels m
       \<and> Compiled m' = Compiled m \<and> GroupName m' = GroupName m
       \<and> (Collector m' = Collector m
            \<or> (\<exists>lbls v. update_collector m lbls v = Inr (Collector m')))"
  using assms
  by (auto simp: process_metric_def Let_def
      split: if_splits sum.splits prod.splits option.splits)

lemma started_ok_cong:
  "Value m' = Value m \<Longrightarrow> Labels m' = Labels m \<Longrightarrow> Collector m' = Collector m
     \<Longrightarrow> started_ok m' = started_ok m"
  by (cases "Collector m") (simp_all add: started_ok_def)

lemma process_metric_keeps:
  assumes "process_metric pf line m acc = Inr (m', acc')"
  shows "keeps_spec m m'"
proof -
  note f = process_metric_collector[OF assms]
  from f consider "Collector m' = Collector m"
    | lbls v where "update_collector m lbls v = Inr (Collector m')"
    by blast
  then show ?thesis
  proof cases
    case 1
    with f have "started_ok m' = started_ok m" by (intro started_ok_cong) simp_all
    with f 1 show ?thesis by (simp add: keeps_spec_def)
  next
    case 2
    from f have "started_ok m' = started_ok (m\<lparr>Collector := Collector m'\<rparr>)"
      by (intro started_ok_cong) simp_all
    with update_collector_keeps[OF 2] f show ?thesis
      by (simp add: keeps_spec_def)
  qed
qed

lemma process_metrics_Cons_Inr:
  assumes "process_metrics pf line (m # ms) acc = Inr (ms', acc')"
  shows "\<exists>m1 acc1 rest. process_metric pf line m acc = Inr (m1, acc1)
           \<and> process_metrics pf line ms acc1 = Inr (rest, acc') \<and> ms' = m1 # rest"
proof (cases "process_metric pf line m acc")
  case (Inl p)
  with assms show ?thesis by simp
next
  case (Inr r)
  obtain m1 acc1 where r: "r = (m1, acc1)" by (cases r) auto
  show ?thesis
  proof (cases "process_metrics pf line ms acc1")
    case (Inl p)
    from Inr r Inl assms show ?thesis by simp
  next
    case r2: (Inr r2)
    obtain rest acc2 where "r2 = (rest, acc2)" by (cases r2) auto
    with Inr r r2 assms show ?thesis by simp
  qed
qed

lemma process_metrics_keeps:
  "process_metrics pf line ms acc = Inr (ms', acc') \<Longrightarrow> list_all2 keeps_spec ms ms'"
proof (induction ms arbitrary: acc ms')
  case Nil
  then show ?case by simp
next
  case (Cons m ms)
  from process_metrics_Cons_Inr[OF Cons.prems] obtain m1 acc1 rest where
    one: "process_metric pf line m acc = Inr (m1, acc1)" and
    more: "process_metrics pf line ms acc1 = Inr (rest, acc')" and ms': "ms' = m1 # rest"
    by blast
  from process_metric_keeps[OF one] Cons.IH[OF more] ms' show ?case by simp
qed

lemma process_line_keeps:
  assumes "process_line pf cnf line st = Inr (cnf', st')"
  shows "list_all2 keeps_spec (Metrics cnf) (Metrics cnf')
       \<and> EatAll cnf' = EatAll cnf \<and> EatMatches cnf' = EatMatches cnf"
proof -
  from process_line_Inr[OF assms] obtain ms' st1 mf where
    loop: "process_metrics pf line (Metrics cnf) (count_line line st, False) = Inr (ms', st1, mf)"
    and cnf': "cnf' = cnf\<lparr>Metrics := ms'\<rparr>"
    by blast
  from process_metrics_keeps[OF loop] cnf' show ?thesis by simp
qed

lemma list_all2_keeps_trans:
  assumes "list_all2 keeps_spec xs ys" and "list_all2 keeps_spec ys zs"
  shows "list_all2 keeps_spec xs zs"
  using keeps_spec_trans assms by (rule list_all2_trans)

lemma process_lines_keeps:
  "process_lines pf cnf lines st = Inr (cnf', st') \<Longrightarrow>
     list_all2 keeps_spec (Metrics cnf) (Metrics cnf')"
proof (induction lines arbitrary: cnf st)
  case Nil
  then show ?case by (simp add: list_all2_refl keeps_spec_refl)
next
  case (Cons line lines)
  from process_lines_Cons_Inr[OF Cons.prems] obtain cnf1 st1 where
    one: "process_line pf cnf line st = Inr (cnf1, st1)" and
    more: "process_lines pf cnf1 lines st1 = Inr (cnf', st')"
    by blast
  from process_line_keeps[OF one] have "list_all2 keeps_spec (Metrics cnf) (Metrics cnf1)"
    by simp
  then show ?case using Cons.IH[OF more] by (rule list_all2_keeps_trans)
qed

lemma keeps_spec_map:
  assumes "list_all2 keeps_spec ms ms'"
  shows "map (\<lambda>m. shape_of (Collector m)) ms' = map (\<lambda>m. shape_of (Collector m)) ms
       \<and> map Value ms' = map Value ms \<and> map Labels ms' = map Labels ms"
  using assms
  by (induction rule: list_all2_induct) (simp_all add: keeps_spec_def)

section \<open>The collector shape\<close>

lemma shape_of_new_collector:
  "shape_of (new_collector c :: ('v::zero) collector) = spec_shape (Value c \<noteq> []) (Labels c \<noteq> [])"
  by (simp add: new_collector_def)

lemma started_ok_new:
  "started_ok \<lparr>Name = n, Description = d, Regex = r, Value = Value c, Labels = Labels c,
      Collector = new_collector c, Compiled = re, GroupName = g\<rparr>"
  by (simp add: started_ok_def new_collector_def)

lemma startup_metrics_Cons_Inr:
  assumes "startup_metrics compile valid bn i (c # cs) reg = Inr (ms :: ('v::zero) metric list, reg')"
  shows "\<exists>re reg1 rest. compile (Regex c) = Some re
     \<and> MustRegister valid (bn @ ''_'' @ Name c) (Labels c) (UserMetric i) reg = Inr reg1
     \<and> startup_metrics compile valid bn (i + 1) cs reg1 = Inr (rest, reg')
     \<and> ms = \<lparr>Name = Name c, Description = Description c, Regex = Regex c, Value = Value c,
              Labels = Labels c, Collector = new_collector c, Compiled = re,
              GroupName = SubexpNames re\<rparr> # rest"
proof (cases "compile (Regex c)")
  case None
  with assms show ?thesis by (simp add: Let_def)
next
  case (Some re)
  show ?thesis
  proof (cases "MustRegister valid (bn @ ''_'' @ Name c) (Labels c) (UserMetric i) reg")
    case (Inl p)
    with Some assms show ?thesis by (simp add: Let_def)
  next
    case (Inr reg1)
    show ?thesis
    proof (cases "startup_metrics compile valid bn (i + 1) cs reg1
                   :: panic + ('v metric list \<times> registry)")
      case (Inl p)
      from Some Inr Inl assms show ?thesis by (simp add: Let_def)
    next
      case r: (Inr r)
      obtain rest reg2 where "r = (rest, reg2)" by (cases r) auto
      with Some Inr r assms show ?thesis by (simp add: Let_def)
    qed
  qed
qed

lemma MustRegister_Inr:
  "MustRegister valid name lbls c reg = Inr reg' \<Longrightarrow> reg' = reg @ [(name, c)]"
  by (simp add: MustRegister_def split: if_splits)

lemma startup_metrics_Inr:
  "startup_metrics compile valid bn i cs reg = Inr (ms, reg') \<Longrightarrow>
     length ms = length cs
     \<and> (\<forall>j < length cs. Value (ms ! j) = Value (cs ! j) \<and> Labels (ms ! j) = Labels (cs ! j)
            \<and> Collector (ms ! j) = new_collector (cs ! j) \<and> started_ok (ms ! j))
     \<and> map snd reg' = map snd reg @ map UserMetric [i ..< i + length cs]"
proof (induction cs arbitrary: i reg ms)
  case Nil
  then show ?case by simp
next
  case (Cons c cs)
  from startup_metrics_Cons_Inr[OF Cons.prems] obtain re reg1 rest where
    reg1: "MustRegister valid (bn @ ''_'' @ Name c) (Labels c) (UserMetric i) reg = Inr reg1"
    and rest: "startup_metrics compile valid bn (i + 1) cs reg1 = Inr (rest, reg')"
    and ms: "ms = \<lparr>Name = Name c, Description = Description c, Regex = Regex c, Value = Value c,
              Labels = Labels c, Collector = new_collector c, Compiled = re,
              GroupName = SubexpNames re\<rparr> # rest"
    by blast
  note ih = Cons.IH[OF rest]
  have len: "length ms = length (c # cs)" using ih ms by simp
  have each: "\<forall>j < length (c # cs). Value (ms ! j) = Value ((c # cs) ! j)
            \<and> Labels (ms ! j) = Labels ((c # cs) ! j)
            \<and> Collector (ms ! j) = new_collector ((c # cs) ! j) \<and> started_ok (ms ! j)"
  proof (intro allI impI)
    fix j assume "j < length (c # cs)"
    then show "Value (ms ! j) = Value ((c # cs) ! j)
            \<and> Labels (ms ! j) = Labels ((c # cs) ! j)
            \<and> Collector (ms ! j) = new_collector ((c # cs) ! j) \<and> started_ok (ms ! j)"
      using ih ms by (cases j) (simp_all add: started_ok_new)
  qed
  have "map snd reg1 = map snd reg @ [UserMetric i]"
    using MustRegister_Inr[OF reg1] by simp
  moreover have "[i ..< i + length (c # cs)] = i # [i + 1 ..< i + 1 + length cs]"
    using upt_conv_Cons[of i "i + length (c # cs)"] by simp
  ultimately have regs: "map snd reg' = map snd reg @ map UserMetric [i ..< i + length (c # cs)]"
    using ih by (simp del: upt_Suc)
  from len each regs show ?case by blast
qed

lemma startup_Inr:
  assumes "startup compile valid cnf = Inr (cnf' :: ('v::zero) metric Data, reg)"
  shows "\<exists>ms reg0. startup_metrics compile valid (Basename cnf) 0 (Metrics cnf) [] = Inr (ms, reg0)
     \<and> Metrics cnf' = ms \<and> EatAll cnf' = EatAll cnf \<and> EatMatches cnf' = EatMatches cnf
     \<and> reg = reg0 @ [(self_name TotalLines, TotalLines), (self_name BytesRead, BytesRead),
                      (self_name MatchedLines, MatchedLines)]"
proof (cases "startup_metrics compile valid (Basename cnf) 0 (Metrics cnf) []
                :: panic + ('v metric list \<times> registry)")
  case (Inl p)
  with assms show ?thesis by (simp add: startup_def)
next
  case (Inr r)
  obtain ms reg0 where r: "r = (ms, reg0)" by (cases r) auto
  from assms Inr r show ?thesis
    by (simp add: startup_def MustRegister_def split: if_splits) auto
qed

text \<open>
  Claim C6: at startup every configured metric gets its collector shape once, from
  whether a value group is declared and whether there are label groups (value and labels:
  GaugeVec; value only: Gauge; labels only: CounterVec; neither: Counter), and the shape
  never changes afterwards.

  When startup completes, the started metrics are the configured ones in order, each
  with its value and label names and with a collector of the shape \<open>spec_shape\<close> gives;
  besides the program's own counters the registry holds each metric's collector once,
  in order; and any run of the loop over any lines leaves shapes, value names and label
  names as they are.
\<close>

theorem C6_collector_shape_fixed_at_startup:
  assumes "startup compile valid cnf = Inr (cnf' :: ('v::zero) metric Data, reg)"
  shows "length (Metrics cnf') = length (Metrics cnf)
       \<and> (\<forall>i < length (Metrics cnf).
             Value (Metrics cnf' ! i) = Value (Metrics cnf ! i)
           \<and> Labels (Metrics cnf' ! i) = Labels (Metrics cnf ! i)
           \<and> shape_of (Collector (Metrics cnf' ! i)) =
               spec_shape (Value (Metrics cnf ! i) \<noteq> []) (Labels (Metrics cnf ! i) \<noteq> []))
       \<and> filter (\<lambda>c. c \<notin> {TotalLines, BytesRead, MatchedLines, BadFloats}) (map snd reg)
            = map UserMetric [0 ..< length (Metrics cnf)]
       \<and> (\<forall>ParseFloat lines st cnf'' st'.
             process_lines ParseFloat cnf' lines st = Inr (cnf'', st') \<longrightarrow>
               map (\<lambda>m. shape_of (Collector m)) (Metrics cnf'')
                 = map (\<lambda>m. shape_of (Collector m)) (Metrics cnf')
             \<and> map Value (Metrics cnf'') = map Value (Metrics cnf')
             \<and> map Labels (Metrics cnf'') = map Labels (Metrics cnf'))"
proof -
  from startup_Inr[OF assms] obtain ms reg0 where
    sm: "startup_metrics compile valid (Basename cnf) 0 (Metrics cnf) [] = Inr (ms, reg0)"
    and ms: "Metrics cnf' = ms"
    and reg: "reg = reg0 @ [(self_name TotalLines, TotalLines), (self_name BytesRead, BytesRead),
                      (self_name MatchedLines, MatchedLines)]"
    by blast
  note s = startup_metrics_Inr[OF sm]
  have len: "length (Metrics cnf') = length (Metrics cnf)" using s ms by simp
  have each: "\<forall>i < length (Metrics cnf).
             Value (Metrics cnf' ! i) = Value (Metrics cnf ! i)
           \<and> Labels (Metrics cnf' ! i) = Labels (Metrics cnf ! i)
           \<and> shape_of (Collector (Metrics cnf' ! i)) =
               spec_shape (Value (Metrics cnf ! i) \<noteq> []) (Labels (Metrics cnf ! i) \<noteq> [])"
    using s ms by (simp add: shape_of_new_collector)
  have regs: "filter (\<lambda>c. c \<notin> {TotalLines, BytesRead, MatchedLines, BadFloats}) (map snd reg)
            = map UserMetric [0 ..< length (Metrics cnf)]"
    using s reg by (simp add: filter_map comp_def)
  have keep: "\<forall>ParseFloat lines st cnf'' st'.
             process_lines ParseFloat cnf' lines st = Inr (cnf'', st') \<longrightarrow>
               map (\<lambda>m. shape_of (Collector m)) (Metrics cnf'')
                 = map (\<lambda>m. shape_of (Collector m)) (Metrics cnf')
             \<and> map Value (Metrics cnf'') = map Value (Metrics cnf')
             \<and> map Labels (Metrics cnf'') = map Labels (Metrics cnf')"
  proof (intro allI impI)
    fix ParseFloat lines st cnf'' st'
    assume "process_lines ParseFloat cnf' lines st = Inr (cnf'', st')"
    from keeps_spec_map[OF process_lines_keeps[OF this]]
    show "map (\<lambda>m. shape_of (Collector m)) (Metrics cnf'')
                 = map (\<lambda>m. shape_of (Collector m)) (Metrics cnf')
             \<and> map Value (Metrics cnf'') = map Value (Metrics cnf')
             \<and> map Labels (Metrics cnf'') = map Labels (Metrics cnf')" .
  qed
  from len each regs keep show ?thesis by (intro conjI)
qed

theorem C6_collector_shape_witness:
  "\<exists>cnf' reg. startup sample_compile any_name
        (sample_conf [sample_metric ''c'' ''a'' [] [], sample_metric ''cv'' ''(?P<v>.*)'' [] [''v''],
                      sample_metric ''g'' ''(?P<v>.*)'' ''v'' [],
                      sample_metric ''gv'' ''(?P<v>.*)'' ''v'' [''v'']])
        = Inr (cnf' :: int metric Data, reg)
     \<and> shape_of (Collector (Metrics cnf' ! 0)) = CounterShape
     \<and> shape_of (Collector (Metrics cnf' ! 1)) = CounterVecShape
     \<and> shape_of (Collector (Metrics cnf' ! 2)) = GaugeShape
     \<and> shape_of (Collector (Metrics cnf' ! 3)) = GaugeVecShape"
proof -
  let ?conf = "sample_conf [sample_metric ''c'' ''a'' [] [], sample_metric ''cv'' ''(?P<v>.*)'' [] [''v''],
                      sample_metric ''g'' ''(?P<v>.*)'' ''v'' [],
                      sample_metric ''gv'' ''(?P<v>.*)'' ''v'' [''v'']]"
  obtain cnf' :: "int metric Data" and reg where
    h: "startup sample_compile any_name ?conf = Inr (cnf', reg)"
    by (simp add: run_defs)
  from C6_collector_shape_fixed_at_startup[OF h]
  have e: "\<forall>i < length (Metrics ?conf).
      shape_of (Collector (Metrics cnf' ! i)) =
        spec_shape (Value (Metrics ?conf ! i) \<noteq> []) (Labels (Metrics ?conf ! i) \<noteq> [])"
    by blast
  have "shape_of (Collector (Metrics cnf' ! 0)) = CounterShape"
    using e[rule_format, of 0] by (simp add: sample_conf_def sample_metric_def)
  moreover have "shape_of (Collector (Metrics cnf' ! 1)) = CounterVecShape"
    using e[rule_format, of 1] by (simp add: sample_conf_def sample_metric_def)
  moreover have "shape_of (Collector (Metrics cnf' ! 2)) = GaugeShape"
    using e[rule_format, of 2] by (simp add: sample_conf_def sample_metric_def)
  moreover have "shape_of (Collector (Metrics cnf' ! 3)) = GaugeVecShape"
    using e[rule_format, of 3] by (simp add: sample_conf_def sample_metric_def)
  ultimately show ?thesis using h by blast
qed

section \<open>Every metric is tested, whatever the others did\<close>

text \<open>What the loop body leaves of a metric, and whether it panics, does not depend on
  the state it starts from: \<open>labels\<close> and \<open>value\<close> are assigned before they are read.\<close>

lemma map_sum_case:
  "map_sum id fst (case x of Inl p \<Rightarrow> Inl p | Inr c \<Rightarrow> Inr (f c, g c)) =
     (case x of Inl p \<Rightarrow> Inl p | Inr c \<Rightarrow> Inr (f c))"
  by (cases x) simp_all

lemma process_metric_indep:
  "map_sum id fst (process_metric pf line m (st, mf)) =
   map_sum id fst (process_metric pf line m (st2, mf2))"
proof (cases "matches m line")
  case False
  then show ?thesis by (simp add: process_metric_no_match)
next
  case True
  let ?r = "FindStringSubmatch (Compiled m) line"
  have nz: "?r \<noteq> []" using True by (simp add: matches_def)
  note defs = process_metric_def update_collector_def Let_def map_sum_case
  have labels_part: ?thesis
    if v: "Value m = [] \<or> getValue pf (Value m) (GroupName m) ?r = Inr (val, None)" for val
  proof (cases "Labels m = []")
    case True
    from v show ?thesis
    proof
      assume "Value m = []"
      with nz True show ?thesis by (simp add: defs split: collector.splits sum.splits)
    next
      assume gv: "getValue pf (Value m) (GroupName m) ?r = Inr (val, None)"
      show ?thesis
      proof (cases "Value m = []")
        case v0: True
        with nz True show ?thesis by (simp add: defs split: collector.splits sum.splits)
      next
        case False
        with nz True gv show ?thesis by (simp add: defs split: collector.splits sum.splits)
      qed
    qed
  next
    case l1: False
    show ?thesis
    proof (cases "getLabels (Labels m) (GroupName m) ?r")
      case (Inl p)
      from v show ?thesis
      proof
        assume "Value m = []"
        with nz l1 Inl show ?thesis by (simp add: defs split: collector.splits sum.splits)
      next
        assume gv: "getValue pf (Value m) (GroupName m) ?r = Inr (val, None)"
        show ?thesis
        proof (cases "Value m = []")
          case True
          with nz l1 Inl show ?thesis by (simp add: defs split: collector.splits sum.splits)
        next
          case False
          with nz l1 Inl gv show ?thesis by (simp add: defs split: collector.splits sum.splits)
        qed
      qed
    next
      case (Inr r)
      obtain lbls err where r: "r = (lbls, err)" by (cases r) auto
      from v show ?thesis
      proof
        assume "Value m = []"
        with nz l1 Inr r show ?thesis by (simp add: defs split: collector.splits sum.splits)
      next
        assume gv: "getValue pf (Value m) (GroupName m) ?r = Inr (val, None)"
        show ?thesis
        proof (cases "Value m = []")
          case True
          with nz l1 Inr r show ?thesis by (simp add: defs split: collector.splits sum.splits)
        next
          case False
          with nz l1 Inr r gv show ?thesis by (simp add: defs split: collector.splits sum.splits)
        qed
      qed
    qed
  qed
  show ?thesis
  proof (cases "Value m = []")
    case True
    then show ?thesis using labels_part by blast
  next
    case v1: False
    show ?thesis
    proof (cases "getValue pf (Value m) (GroupName m) ?r")
      case (Inl p)
      with nz v1 show ?thesis by (simp add: defs split: collector.splits sum.splits)
    next
      case (Inr r)
      obtain val err where r: "r = (val, err)" by (cases r) auto
      show ?thesis
      proof (cases err)
        case None
        with Inr r show ?thesis using labels_part by blast
      next
        case (Some e)
        with nz v1 Inr r show ?thesis by (simp add: defs split: collector.splits sum.splits)
      qed
    qed
  qed
qed

lemma process_metric_step:
  assumes "process_metric pf line m (st, mf) = Inr (m', acc')"
  shows "step_metric pf line m = Inr m'"
proof -
  have "step_metric pf line m = map_sum id fst (process_metric pf line m (st, mf))"
    unfolding step_metric_def by (rule process_metric_indep)
  with assms show ?thesis by simp
qed

lemma step_process_metric:
  assumes "step_metric pf line m = Inr m'"
  shows "\<exists>acc'. process_metric pf line m acc = Inr (m', acc')"
proof -
  obtain st mf where acc: "acc = (st, mf)" by (cases acc) auto
  have "map_sum id fst (process_metric pf line m (st, mf)) = step_metric pf line m"
    unfolding step_metric_def by (rule process_metric_indep)
  with assms have e: "map_sum id fst (process_metric pf line m (st, mf)) = Inr m'" by simp
  show ?thesis
  proof (cases "process_metric pf line m (st, mf)")
    case (Inl p)
    with e show ?thesis by simp
  next
    case (Inr r)
    with e have "fst r = m'" by simp
    then have "r = (m', snd r)" by (cases r) simp
    with Inr acc show ?thesis by metis
  qed
qed

lemma process_metric_badFloats:
  assumes "process_metric pf line m (st, mf) = Inr (m', st', mf')"
  shows "badFloats st' = badFloats st + (if value_fails pf line m then 1 else 0)"
  using assms
  by (auto simp: process_metric_def matches_def value_fails_def Let_def
      split: if_splits sum.splits prod.splits option.splits)

lemma process_metrics_steps:
  "process_metrics pf line ms (st, mf) = Inr (ms', st', mf') \<Longrightarrow>
     list_all2 (\<lambda>m m'. step_metric pf line m = Inr m') ms ms'
     \<and> badFloats st' = badFloats st + length (filter (value_fails pf line) ms)"
proof (induction ms arbitrary: st mf ms')
  case Nil
  then show ?case by simp
next
  case (Cons m ms)
  from process_metrics_Cons_Inr[OF Cons.prems] obtain m1 acc1 rest where
    one: "process_metric pf line m (st, mf) = Inr (m1, acc1)" and
    more: "process_metrics pf line ms acc1 = Inr (rest, st', mf')" and ms': "ms' = m1 # rest"
    by blast
  obtain st1 mf1 where acc1: "acc1 = (st1, mf1)" by (cases acc1) auto
  note a = process_metric_step[OF one]
  note b = process_metric_badFloats[OF one[unfolded acc1]]
  note c = Cons.IH[OF more[unfolded acc1]]
  from a b c ms' show ?case by simp
qed





section \<open>Counters are only ever incremented\<close>

lemma getLabels_loop_map_of:
  "getLabels_loop names g r acc = Inr (lbls, None) \<Longrightarrow>
     map_of lbls n = (if n \<in> set names then Some (r ! nat (indexOf n g)) else map_of acc n)"
proof (induction names arbitrary: acc)
  case Nil
  then show ?case by simp
next
  case (Cons a names)
  from Cons.prems have
    rest: "getLabels_loop names g r (AList.update a (r ! nat (indexOf a g)) acc) = Inr (lbls, None)"
    by (simp add: Let_def split: if_splits)
  from Cons.IH[OF rest] show ?case by (simp add: update_conv')
qed

lemma getLabels_loop_err:
  "getLabels_loop names g r acc = Inr (lbls, Some e) \<Longrightarrow> lbls = []"
  by (induction names arbitrary: acc) (auto simp: Let_def split: if_splits)

lemma With_getLabels:
  assumes "getLabels names g r = Inr (lbls, None)" and "With names lbls = Inr key"
  shows "key = map (\<lambda>n. r ! nat (indexOf n g)) names"
proof -
  from assms(1) have m: "\<And>n. n \<in> set names \<Longrightarrow> map_of lbls n = Some (r ! nat (indexOf n g))"
    by (simp add: getLabels_def getLabels_loop_map_of)
  from assms(2) have "key = map (\<lambda>n. the (map_of lbls n)) names"
    by (simp add: With_def split: if_splits)
  with m show ?thesis by simp
qed

lemma With_nil: "names \<noteq> [] \<Longrightarrow> With names [] = Inl InconsistentLabels"
  by (simp add: With_def)

lemma series_value_update:
  "series_value z (AList.update key x series) k = (if k = key then x else series_value z series k)"
  by (simp add: series_value_def update_conv')

lemma counter_step:
  assumes v: "Value m = []" and ok: "started_ok m"
    and run: "process_metric pf line m acc = Inr (m', acc')"
  shows "counter_reading (Collector m') key =
           counter_reading (Collector m) key +
           (if matches m line \<and> (Labels m = [] \<or> key = label_key m line) then 1 else 0)"
proof (cases "matches m line")
  case False
  with run show ?thesis by (simp add: process_metric_no_match)
next
  case True
  let ?r = "FindStringSubmatch (Compiled m) line"
  have nz: "?r \<noteq> []" using True by (simp add: matches_def)
  show ?thesis
  proof (cases "Labels m = []")
    case l0: True
    from ok v l0 obtain n where c: "Collector m = Counter n"
      by (cases "Collector m") (simp_all add: started_ok_def)
    from run nz v l0 c have "Collector m' = Counter (n + 1)"
      by (auto simp: process_metric_def update_collector_def Let_def)
    with c True l0 show ?thesis by simp
  next
    case l1: False
    from ok v l1 obtain series where c: "Collector m = CounterVec (Labels m) series"
      by (cases "Collector m") (simp_all add: started_ok_def)
    show ?thesis
    proof (cases "getLabels (Labels m) (GroupName m) ?r")
      case (Inl p)
      with run nz v l1 show ?thesis by (simp add: process_metric_def Let_def)
    next
      case (Inr r)
      obtain lbls err where r: "r = (lbls, err)" by (cases r) auto
      show ?thesis
      proof (cases "With (Labels m) lbls")
        case w: (Inl p)
        with run nz v l1 Inr r c show ?thesis
          by (simp add: process_metric_def update_collector_def Let_def)
      next
        case w: (Inr k)
        have e: "err = None"
        proof (cases err)
          case None
          then show ?thesis .
        next
          case (Some e)
          with Inr r have "lbls = []" by (simp add: getLabels_def getLabels_loop_err)
          with w l1 show ?thesis by (simp add: With_nil)
        qed
        with Inr r w have k: "k = label_key m line"
          unfolding label_key_def by (intro With_getLabels) simp_all
        from run nz v l1 Inr r c w
        have "Collector m' =
            CounterVec (Labels m) (AList.update k (series_value 0 series k + 1) series)"
          by (auto simp: process_metric_def update_collector_def Let_def)
        with c True l1 k show ?thesis by (simp add: series_value_update)
      qed
    qed
  qed
qed

lemma started_counter_Value:
  assumes "started_ok m"
    and "shape_of (Collector m) = CounterShape \<or> shape_of (Collector m) = CounterVecShape"
  shows "Value m = []"
  using assms by (cases "Collector m") (simp_all add: started_ok_def)

lemma process_metrics_nth:
  assumes "process_metrics pf line ms (st, mf) = Inr (ms', acc')" and "i < length ms"
  shows "\<exists>a'. process_metric pf line (ms ! i) a = Inr (ms' ! i, a')"
proof -
  obtain st' mf' where "acc' = (st', mf')" by (cases acc') auto
  with assms(1) have "list_all2 (\<lambda>m m'. step_metric pf line m = Inr m') ms ms'"
    using process_metrics_steps by blast
  with assms(2) have "step_metric pf line (ms ! i) = Inr (ms' ! i)"
    by (simp add: list_all2_conv_all_nth)
  then show ?thesis by (rule step_process_metric)
qed

lemma keeps_spec_same_line:
  assumes "keeps_spec m m'"
  shows "matches m' line = matches m line \<and> label_key m' line = label_key m line
       \<and> Value m' = Value m \<and> Labels m' = Labels m \<and> started_ok m' = started_ok m"
  using assms by (simp add: keeps_spec_def matches_def label_key_def)

lemma counter_line:
  assumes i: "i < length (Metrics cnf)"
    and v: "Value (Metrics cnf ! i) = []" and ok: "started_ok (Metrics cnf ! i)"
    and run: "process_line pf cnf line st = Inr (cnf', st')"
  shows "counter_reading (Collector (Metrics cnf' ! i)) key =
           counter_reading (Collector (Metrics cnf ! i)) key +
           (if matches (Metrics cnf ! i) line
               \<and> (Labels (Metrics cnf ! i) = [] \<or> key = label_key (Metrics cnf ! i) line)
            then 1 else 0)"
    and "keeps_spec (Metrics cnf ! i) (Metrics cnf' ! i)"
    and "length (Metrics cnf') = length (Metrics cnf)"
proof -
  from process_line_Inr[OF run] obtain ms' st1 mf where
    loop: "process_metrics pf line (Metrics cnf) (count_line line st, False) = Inr (ms', st1, mf)"
    and cnf': "cnf' = cnf\<lparr>Metrics := ms'\<rparr>"
    by blast
  have ms': "Metrics cnf' = ms'" by (simp add: cnf')
  from process_metrics_nth[OF loop i] obtain a' where
    one: "process_metric pf line (Metrics cnf ! i) (initial_state, False) = Inr (ms' ! i, a')"
    by blast
  from counter_step[OF v ok one] ms'
  show "counter_reading (Collector (Metrics cnf' ! i)) key =
           counter_reading (Collector (Metrics cnf ! i)) key +
           (if matches (Metrics cnf ! i) line
               \<and> (Labels (Metrics cnf ! i) = [] \<or> key = label_key (Metrics cnf ! i) line)
            then 1 else 0)"
    by simp
  from process_metric_keeps[OF one] ms'
  show "keeps_spec (Metrics cnf ! i) (Metrics cnf' ! i)" by simp
  from process_metrics_Inr[OF loop] ms'
  show "length (Metrics cnf') = length (Metrics cnf)" by simp
qed

text \<open>
  Claim C9: line processing never sets a Counter or a CounterVec to an absolute value;
  the only change is an increment by exactly one per matching line, for a CounterVec on
  the series that the extracted label values select, so the same matching line fed twice
  increments twice.

  For a started metric whose collector is a counter or a counter vector, and for every
  tuple of label values: after a line whose processing completes, what is read is what
  was read before, plus one exactly when the line matches and the tuple is the one the
  line selects (a plain counter has only the one reading); after the same line twice it
  is plus two.
\<close>

theorem C9_counters_only_incremented:
  assumes i: "i < length (Metrics cnf)"
    and ok: "started_ok (Metrics cnf ! i)"
    and shape: "shape_of (Collector (Metrics cnf ! i)) = CounterShape
              \<or> shape_of (Collector (Metrics cnf ! i)) = CounterVecShape"
  shows "(\<forall>st cnf' st' key. process_line ParseFloat cnf line st = Inr (cnf', st') \<longrightarrow>
            counter_reading (Collector (Metrics cnf' ! i)) key =
              counter_reading (Collector (Metrics cnf ! i)) key +
              (if matches (Metrics cnf ! i) line
                  \<and> (Labels (Metrics cnf ! i) = [] \<or> key = label_key (Metrics cnf ! i) line)
               then 1 else 0))
       \<and> (\<forall>st cnf'' st'' key. process_lines ParseFloat cnf [line, line] st = Inr (cnf'', st'') \<longrightarrow>
            counter_reading (Collector (Metrics cnf'' ! i)) key =
              counter_reading (Collector (Metrics cnf ! i)) key +
              (if matches (Metrics cnf ! i) line
                  \<and> (Labels (Metrics cnf ! i) = [] \<or> key = label_key (Metrics cnf ! i) line)
               then 2 else 0))"
proof (intro conjI allI impI)
  note v = started_counter_Value[OF ok shape]
  fix st cnf' st' key
  assume "process_line ParseFloat cnf line st = Inr (cnf', st')"
  from counter_line(1)[OF i v ok this]
  show "counter_reading (Collector (Metrics cnf' ! i)) key =
              counter_reading (Collector (Metrics cnf ! i)) key +
              (if matches (Metrics cnf ! i) line
                  \<and> (Labels (Metrics cnf ! i) = [] \<or> key = label_key (Metrics cnf ! i) line)
               then 1 else 0)" .
next
  note v = started_counter_Value[OF ok shape]
  fix st cnf'' st'' key
  assume two: "process_lines ParseFloat cnf [line, line] st = Inr (cnf'', st'')"
  from process_lines_Cons_Inr[OF two] obtain cnf1 st1 where
    first: "process_line ParseFloat cnf line st = Inr (cnf1, st1)" and
    rest: "process_lines ParseFloat cnf1 [line] st1 = Inr (cnf'', st'')"
    by blast
  from process_lines_Cons_Inr[OF rest] have
    second: "process_line ParseFloat cnf1 line st1 = Inr (cnf'', st'')"
    by auto
  note a = counter_line[OF i v ok first]
  note k = keeps_spec_same_line[OF a(2), of line]
  from a(3) i have i1: "i < length (Metrics cnf1)" by simp
  from k v have v1: "Value (Metrics cnf1 ! i) = []" by simp
  from k ok have ok1: "started_ok (Metrics cnf1 ! i)" by simp
  note b = counter_line(1)[OF i1 v1 ok1 second]
  from a(1)[of key] b[of key] k
  show "counter_reading (Collector (Metrics cnf'' ! i)) key =
              counter_reading (Collector (Metrics cnf ! i)) key +
              (if matches (Metrics cnf ! i) line
                  \<and> (Labels (Metrics cnf ! i) = [] \<or> key = label_key (Metrics cnf ! i) line)
               then 2 else 0)"
    by simp
qed

theorem C9_counters_only_incremented_witness:
  "\<exists>cnf'' st''.
      process_lines sample_ParseFloat
        (sample_started [sample_metric ''y'' ''(?P<v>.*)'' [] [''v'']])
        [''ab'', ''ab''] initial_state = Inr (cnf'', st'')
    \<and> counter_reading (Collector (Metrics cnf'' ! 0)) [''ab''] = 2
    \<and> counter_reading (Collector (Metrics cnf'' ! 0)) [''zz''] = 0"
proof -
  let ?cnf = "sample_started [sample_metric ''y'' ''(?P<v>.*)'' [] [''v'']]"
  obtain cnf'' st'' where
    h: "process_lines sample_ParseFloat ?cnf [''ab'', ''ab''] initial_state = Inr (cnf'', st'')"
    by (simp add: sample_started_def run_defs)
  have i: "0 < length (Metrics ?cnf)" by (simp add: sample_started_def run_defs)
  have ok: "started_ok (Metrics ?cnf ! 0)"
    by (simp add: sample_started_def started_ok_def run_defs)
  have shape: "shape_of (Collector (Metrics ?cnf ! 0)) = CounterShape
             \<or> shape_of (Collector (Metrics ?cnf ! 0)) = CounterVecShape"
    by (simp add: sample_started_def run_defs)
  have before: "counter_reading (Collector (Metrics ?cnf ! 0)) key = 0" for key
    by (simp add: sample_started_def run_defs)
  have m: "matches (Metrics ?cnf ! 0) ''ab''"
    by (simp add: sample_started_def matches_def run_defs)
  have l: "Labels (Metrics ?cnf ! 0) \<noteq> []" "label_key (Metrics ?cnf ! 0) ''ab'' = [''ab'']"
    by (simp_all add: sample_started_def label_key_def run_defs)
  from C9_counters_only_incremented[where ParseFloat = sample_ParseFloat and line = "''ab''",
      OF i ok shape]
  have t: "counter_reading (Collector (Metrics cnf'' ! 0)) key =
              counter_reading (Collector (Metrics ?cnf ! 0)) key +
              (if matches (Metrics ?cnf ! 0) ''ab''
                  \<and> (Labels (Metrics ?cnf ! 0) = [] \<or> key = label_key (Metrics ?cnf ! 0) ''ab'')
               then 2 else 0)" for key
    using h by blast
  have "counter_reading (Collector (Metrics cnf'' ! 0)) [''ab''] = 2"
    unfolding t before using m l by simp
  moreover have "counter_reading (Collector (Metrics cnf'' ! 0)) [''zz''] = 0"
    unfolding t before using m l by simp
  ultimately show ?thesis using h by blast
qed

section \<open>Each matching metric is updated once\<close>








section \<open>Lines and bytes read\<close>

lemma dropCR_eol: "data = dropCR data \<or> data = dropCR data @ [CHR 0x0D]"
proof (cases "data \<noteq> [] \<and> last data = CHR 0x0D")
  case True
  then have "butlast data @ [CHR 0x0D] = data" by (metis append_butlast_last_id)
  with True show ?thesis by (simp add: dropCR_def)
next
  case False
  then show ?thesis by (auto simp: dropCR_def)
qed

lemma scan_lines_eol:
  "(raw, token) \<in> set (scan_lines cur input) \<Longrightarrow>
     raw = token \<or> raw = token @ [CHR 0x0A] \<or> raw = token @ [CHR 0x0D]
     \<or> raw = token @ [CHR 0x0D, CHR 0x0A]"
proof (induction input arbitrary: cur)
  case Nil
  then have "raw = cur" and "token = dropCR cur" by (auto split: if_splits)
  with dropCR_eol[of cur] show ?case by auto
next
  case (Cons c rest)
  show ?case
  proof (cases "c = CHR 0x0A")
    case True
    with Cons.prems consider "raw = cur @ [CHR 0x0A]" "token = dropCR cur"
      | "(raw, token) \<in> set (scan_lines [] rest)"
      by auto
    then show ?thesis
    proof cases
      case 1
      with dropCR_eol[of cur] show ?thesis by auto
    next
      case 2
      then show ?thesis by (rule Cons.IH)
    qed
  next
    case False
    with Cons.prems have "(raw, token) \<in> set (scan_lines (cur @ [c]) rest)"
      by (simp split: if_splits)
    then show ?thesis by (rule Cons.IH)
  qed
qed

lemma scan_lines_prefix:
  "\<exists>rest. cur @ input = concat (map fst (scan_lines cur input)) @ rest"
proof (induction input arbitrary: cur)
  case Nil
  then show ?case by simp
next
  case (Cons c rest)
  show ?case
  proof (cases "c = CHR 0x0A")
    case True
    from Cons.IH[of "[]"] have "\<exists>r. rest = concat (map fst (scan_lines [] rest)) @ r"
      by simp
    with True show ?thesis by simp
  next
    case False
    show ?thesis
    proof (cases "MaxScanTokenSize \<le> length cur + 1")
      case True
      with False show ?thesis by simp
    next
      case big: False
      from Cons.IH[of "cur @ [c]"] False big show ?thesis by simp
    qed
  qed
qed

lemma sum_token_lengths:
  assumes "\<forall>p \<in> set ps. length (snd p) \<le> length (fst p)"
  shows "sum_list (map length (map snd ps)) + sum_list (map (\<lambda>p. length (fst p) - length (snd p)) ps)
           = length (concat (map fst ps))"
  using assms by (induction ps) auto

lemma scan_lines_token_le:
  "p \<in> set (scan_lines cur input) \<Longrightarrow> length (snd p) \<le> length (fst p)"
  using scan_lines_eol[of "fst p" "snd p" cur input] by auto

text \<open>
  Claim C10: every line, matched or not, adds one to the lines counter and the length in
  bytes of the line, terminating newline excluded, to the bytes counter, so that the
  bytes counter stays below the bytes of the input by one terminator byte per line.

  As stated this fails on input with carriage returns: the scanner's token has lost the
  carriage return too. The eight bytes \<open>ab CR LF cd CR LF\<close> are two lines and add four
  to the bytes counter, two bytes short per line.
\<close>

theorem C10_crlf_input_loses_two_bytes_per_line:
  "length (''ab'' @ [CHR 0x0D, CHR 0x0A] @ ''cd'' @ [CHR 0x0D, CHR 0x0A]) = 8
   \<and> scanner_lines (''ab'' @ [CHR 0x0D, CHR 0x0A] @ ''cd'' @ [CHR 0x0D, CHR 0x0A]) = [''ab'', ''cd'']
   \<and> map_sum id (totalLines \<circ> snd)
        (process_lines sample_ParseFloat (sample_started [])
           (scanner_lines (''ab'' @ [CHR 0x0D, CHR 0x0A] @ ''cd'' @ [CHR 0x0D, CHR 0x0A]))
           initial_state) = Inr 2
   \<and> map_sum id (bytesRead \<circ> snd)
        (process_lines sample_ParseFloat (sample_started [])
           (scanner_lines (''ab'' @ [CHR 0x0D, CHR 0x0A] @ ''cd'' @ [CHR 0x0D, CHR 0x0A]))
           initial_state) = Inr 4"
  by (simp add: scanner_lines_def dropCR_def MaxScanTokenSize_def sample_started_def run_defs)


text \<open>
  Claim C10, amended: every line, matched or not, adds one to the lines counter and the
  length in bytes of the scanner's token to the bytes counter; the token is the raw line
  without its end-of-line marker, which is a newline, a carriage return and a newline,
  or, for a last line without newline, nothing or one carriage return; so over a run the
  bytes counter stays below the bytes consumed by the lengths of these markers: one byte
  for a line ended by a bare newline, two for carriage return and newline.

  The first two conjuncts are the two statements at the head of the loop body; the third
  is the line whose processing completes; the fourth and fifth are the scanner (each
  token against its raw bytes, and the raw bytes in order at the front of the input);
  the sixth is a run over the scanner's lines.
\<close>

theorem C10_lines_and_token_bytes_counted:
  "totalLines (count_line line st) = totalLines st + 1
   \<and> bytesRead (count_line line st) = bytesRead st + length line
   \<and> (\<forall>cnf' st'. process_line ParseFloat cnf line st = Inr (cnf', st') \<longrightarrow>
         totalLines st' = totalLines st + 1 \<and> bytesRead st' = bytesRead st + length line)
   \<and> (\<forall>raw token. (raw, token) \<in> set (scan_lines [] input) \<longrightarrow>
         raw = token \<or> raw = token @ [CHR 0x0A] \<or> raw = token @ [CHR 0x0D]
         \<or> raw = token @ [CHR 0x0D, CHR 0x0A])
   \<and> (\<exists>rest. input = concat (map fst (scan_lines [] input)) @ rest)
   \<and> (\<forall>cnf' st'. process_lines ParseFloat cnf (scanner_lines input) st = Inr (cnf', st') \<longrightarrow>
         totalLines st' = totalLines st + length (scan_lines [] input)
         \<and> bytesRead st'
             + sum_list (map (\<lambda>p. length (fst p) - length (snd p)) (scan_lines [] input))
           = bytesRead st + length (concat (map fst (scan_lines [] input))))"
proof (intro conjI allI impI)
  show "totalLines (count_line line st) = totalLines st + 1"
    by (simp add: count_line_def)
  show "bytesRead (count_line line st) = bytesRead st + length line"
    by (simp add: count_line_def)
  show "\<exists>rest. input = concat (map fst (scan_lines [] input)) @ rest"
    using scan_lines_prefix[of "[]" input] by simp
next
  fix cnf' st' assume "process_line ParseFloat cnf line st = Inr (cnf', st')"
  from process_line_counts[OF this]
  show "totalLines st' = totalLines st + 1" and "bytesRead st' = bytesRead st + length line"
    by simp_all
next
  fix raw token assume "(raw, token) \<in> set (scan_lines [] input)"
  then show "raw = token \<or> raw = token @ [CHR 0x0A] \<or> raw = token @ [CHR 0x0D]
         \<or> raw = token @ [CHR 0x0D, CHR 0x0A]"
    by (rule scan_lines_eol)
next
  fix cnf' st'
  assume run: "process_lines ParseFloat cnf (scanner_lines input) st = Inr (cnf', st')"
  note c = process_lines_counts[OF run]
  from c show "totalLines st' = totalLines st + length (scan_lines [] input)"
    by (simp add: scanner_lines_def)
  have "sum_list (map length (map snd (scan_lines [] input)))
          + sum_list (map (\<lambda>p. length (fst p) - length (snd p)) (scan_lines [] input))
        = length (concat (map fst (scan_lines [] input)))"
    by (rule sum_token_lengths) (simp add: scan_lines_token_le)
  with c show "bytesRead st'
             + sum_list (map (\<lambda>p. length (fst p) - length (snd p)) (scan_lines [] input))
           = bytesRead st + length (concat (map fst (scan_lines [] input)))"
    by (simp add: scanner_lines_def)
qed


theorem C10_lines_and_token_bytes_witness:
  "\<exists>cnf' st'. process_lines sample_ParseFloat (sample_started [sample_metric ''x'' ''a'' [] []])
        (scanner_lines (''a'' @ [CHR 0x0A] @ ''bc'' @ [CHR 0x0D, CHR 0x0A] @ ''d'')) initial_state
        = Inr (cnf', st')
     \<and> scan_lines [] (''a'' @ [CHR 0x0A] @ ''bc'' @ [CHR 0x0D, CHR 0x0A] @ ''d'')
          = [(''a'' @ [CHR 0x0A], ''a''), (''bc'' @ [CHR 0x0D, CHR 0x0A], ''bc''), (''d'', ''d'')]
     \<and> totalLines st' = 3 \<and> bytesRead st' + 3 = 7"
proof -
  let ?cnf = "sample_started [sample_metric ''x'' ''a'' [] []]"
  let ?input = "''a'' @ [CHR 0x0A] @ ''bc'' @ [CHR 0x0D, CHR 0x0A] @ ''d''"
  have sc: "scan_lines [] ?input
          = [(''a'' @ [CHR 0x0A], ''a''), (''bc'' @ [CHR 0x0D, CHR 0x0A], ''bc''), (''d'', ''d'')]"
    by (simp add: dropCR_def MaxScanTokenSize_def)
  obtain cnf' st' where
    h: "process_lines sample_ParseFloat ?cnf (scanner_lines ?input) initial_state = Inr (cnf', st')"
    by (simp add: scanner_lines_def dropCR_def MaxScanTokenSize_def sample_started_def run_defs)
  have z: "totalLines (initial_state :: int state) = 0" "bytesRead (initial_state :: int state) = 0"
    by (simp_all add: initial_state_def)
  from C10_lines_and_token_bytes_counted[where ParseFloat = sample_ParseFloat
      and cnf = ?cnf and input = ?input and st = initial_state] h
  have "totalLines st' = 0 + length (scan_lines [] ?input)
         \<and> bytesRead st'
             + sum_list (map (\<lambda>p. length (fst p) - length (snd p)) (scan_lines [] ?input))
           = 0 + length (concat (map fst (scan_lines [] ?input)))"
    unfolding z by blast
  then have "totalLines st' = 3 \<and> bytesRead st' + 3 = 7" unfolding sc by simp
  with h sc show ?thesis by blast
qed

end
